theory Spec2Isabelle
  imports Main "HOL-Library.Word" "HOL-Library.Sublist"
begin

section \<open>The search panel of the website script\<close>

text \<open>
  This theory embeds \<^verbatim>\<open>onSearchChange\<close> (the function that maps the text of the search
  box to the result slots of the search panel) and the data it reads. The three globals
  \<^verbatim>\<open>search_sites\<close>, \<^verbatim>\<open>search_confs\<close> and \<^verbatim>\<open>search_words\<close> are \<^verbatim>\<open>undefined\<close>
  until the JSON document has been fetched and are then assigned together, once.
  \<^verbatim>\<open>console.log\<close> calls are not modelled.
\<close>

subsection \<open>Strings\<close>

text \<open>
  A JavaScript string is a sequence of UTF-16 code units. \<open>js\<close> writes an ASCII literal
  of the source as such a sequence.
\<close>

type_synonym jsstring = "16 word list"

definition js :: "string \<Rightarrow> jsstring" where
  "js s = map of_char s"

subsection \<open>The index data\<close>

text \<open>
  The JSON document has the fields \<^verbatim>\<open>sites\<close> (an array of objects with a title and a
  path), \<^verbatim>\<open>score_confs\<close> (an array of arrays of site indices) and \<^verbatim>\<open>words\<close> (an object
  from words to bucket numbers). Numbers of the document are taken to be integers.
\<close>

record site =
  title :: jsstring
  path :: jsstring

record search_data =
  search_sites :: "site list"
  search_confs :: "int list list"
  search_words :: "jsstring \<rightharpoonup> int"

datatype index_state = Unloaded | Loaded search_data

datatype error = TypeError

subsection \<open>Property reads\<close>

text \<open>
  \<^verbatim>\<open>search_words\<close> is an ordinary object made by the JSON parser, so the read
  \<^verbatim>\<open>search_words[word]\<close> follows the prototype chain: a key that is not a property of
  the object itself is looked up in \<^verbatim>\<open>Object.prototype\<close>, whose members (functions, and
  the prototype object under \<^verbatim>\<open>__proto__\<close>) are all different from \<^verbatim>\<open>undefined\<close>.
\<close>

definition object_prototype_keys :: "string list" where
  "object_prototype_keys =
     [''constructor'', ''__defineGetter__'', ''__defineSetter__'', ''hasOwnProperty'',
      ''__lookupGetter__'', ''__lookupSetter__'', ''isPrototypeOf'',
      ''propertyIsEnumerable'', ''toString'', ''valueOf'', ''__proto__'',
      ''toLocaleString'']"

datatype jsvalue = Undefined | Number int | Inherited

definition get_property :: "(jsstring \<rightharpoonup> int) \<Rightarrow> jsstring \<Rightarrow> jsvalue" where
  "get_property obj key =
     (case obj key of
        Some n \<Rightarrow> Number n
      | None \<Rightarrow> if key \<in> set (map js object_prototype_keys) then Inherited else Undefined)"

text \<open>
  Reading an array at an integer gives the element when the integer is a position of the
  array and \<^verbatim>\<open>undefined\<close> (here \<open>None\<close>) otherwise. Reading it at a function or an
  object converts that value to a string key, which no array has.
\<close>

definition array_at :: "'a list \<Rightarrow> int \<Rightarrow> 'a option" where
  "array_at xs n = (if 0 \<le> n \<and> n < int (length xs) then Some (xs ! nat n) else None)"

fun array_get :: "'a list \<Rightarrow> jsvalue \<Rightarrow> 'a option" where
  "array_get xs (Number n) = array_at xs n"
| "array_get xs Inherited = None"
| "array_get xs Undefined = None"

subsection \<open>Normalising and splitting the text\<close>

text \<open>
  \<^verbatim>\<open>text.normalize('NFKD')\<close> is a function of the host, defined by the Unicode tables;
  it is a parameter \<open>nfkd\<close> of the model. The replacement that follows it deletes every
  code unit from U+0300 to U+036F.
\<close>

definition remove_diacritics :: "jsstring \<Rightarrow> jsstring" where
  "remove_diacritics s = filter (\<lambda>c. \<not> (0x0300 \<le> c \<and> c \<le> 0x036F)) s"

definition ascii_text :: "(jsstring \<Rightarrow> jsstring) \<Rightarrow> jsstring \<Rightarrow> jsstring" where
  "ascii_text nfkd text = remove_diacritics (nfkd text)"

text \<open>
  \<^verbatim>\<open>split(' ')\<close> cuts at every space; the empty string gives one empty word. \<open>cur\<close>
  holds the code units of the word being read, last one first.
\<close>

fun split_from :: "'a \<Rightarrow> 'a list \<Rightarrow> 'a list \<Rightarrow> 'a list list" where
  "split_from sep cur [] = [rev cur]"
| "split_from sep cur (c # cs) =
     (if c = sep then rev cur # split_from sep [] cs else split_from sep (c # cur) cs)"

definition split_spaces :: "jsstring \<Rightarrow> jsstring list" where
  "split_spaces s = split_from 0x20 [] s"

subsection \<open>Collecting the site indices\<close>

text \<open>
  The inner loop of \<^verbatim>\<open>onSearchChange\<close> over one bucket: an index already in \<open>sites\<close> is
  skipped, a new one is pushed, and the loop is left when the length has reached the
  number of result slots. \<open>cap\<close> is \<^verbatim>\<open>search_options.length\<close>.
\<close>

fun scan_bucket :: "nat \<Rightarrow> int list \<Rightarrow> int list \<Rightarrow> int list" where
  "scan_bucket cap sites [] = sites"
| "scan_bucket cap sites (word_site_idx # rest) =
     (if word_site_idx \<in> set sites then scan_bucket cap sites rest
      else if length (sites @ [word_site_idx]) \<ge> cap then sites @ [word_site_idx]
      else scan_bucket cap (sites @ [word_site_idx]) rest)"

text \<open>
  The outer loop over the words. A word whose read gives \<^verbatim>\<open>undefined\<close> is skipped.
  Otherwise its bucket is read from \<^verbatim>\<open>search_confs\<close>; iterating over \<^verbatim>\<open>undefined\<close>
  throws a \<^verbatim>\<open>TypeError\<close>. The \<^verbatim>\<open>break\<close> of the inner loop leaves the inner loop only,
  so the next word is processed whatever the length of \<open>sites\<close>.
\<close>

fun scan_words :: "search_data \<Rightarrow> nat \<Rightarrow> int list \<Rightarrow> jsstring list \<Rightarrow> error + int list" where
  "scan_words d cap sites [] = Inr sites"
| "scan_words d cap sites (word # rest) =
     (case get_property (search_words d) word of
        Undefined \<Rightarrow> scan_words d cap sites rest
      | word_conf \<Rightarrow>
          (case array_get (search_confs d) word_conf of
             None \<Rightarrow> Inl TypeError
           | Some word_sites_idx \<Rightarrow>
               scan_words d cap (scan_bucket cap sites word_sites_idx) rest))"

definition accumulate ::
  "(jsstring \<Rightarrow> jsstring) \<Rightarrow> search_data \<Rightarrow> nat \<Rightarrow> jsstring \<Rightarrow> error + int list" where
  "accumulate nfkd d cap text = scan_words d cap [] (split_spaces (ascii_text nfkd text))"

subsection \<open>Writing the result slots\<close>

text \<open>
  A result slot is an element of class \<^verbatim>\<open>search-option\<close> with its two children, the
  title (\<^verbatim>\<open>search-option-text\<close>) and the link text (\<^verbatim>\<open>search-option-link\<close>). The
  record holds what the function writes: the class list, \<^verbatim>\<open>href\<close>, \<^verbatim>\<open>target\<close> and the
  \<^verbatim>\<open>innerHTML\<close> of the two children.
\<close>

record search_option =
  classList :: "jsstring list"
  href :: jsstring
  title_innerHTML :: jsstring
  link_innerHTML :: jsstring
  target :: jsstring

definition classList_add :: "jsstring \<Rightarrow> jsstring list \<Rightarrow> jsstring list" where
  "classList_add c cl = (if c \<in> set cl then cl else cl @ [c])"

definition classList_remove :: "jsstring \<Rightarrow> jsstring list \<Rightarrow> jsstring list" where
  "classList_remove c cl = filter (\<lambda>x. x \<noteq> c) cl"

text \<open>\<^verbatim>\<open>s[0]\<close> is the string of the first code unit, or \<^verbatim>\<open>undefined\<close> for the empty string.\<close>

definition char_at_0 :: "jsstring \<Rightarrow> jsstring option" where
  "char_at_0 s = (case s of [] \<Rightarrow> None | c # _ \<Rightarrow> Some [c])"

text \<open>
  One pass of the body of the \<^verbatim>\<open>while\<close> loop, on the slot at position \<open>index\<close>. When
  \<^verbatim>\<open>search_sites[sites[index]]\<close> is \<^verbatim>\<open>undefined\<close>, the class has already been removed
  when reading \<^verbatim>\<open>site['path']\<close> throws.
\<close>

definition render_option ::
  "site list \<Rightarrow> int list \<Rightarrow> nat \<Rightarrow> search_option \<Rightarrow> error option \<times> search_option" where
  "render_option sts sites index opt =
     (if index < length sites then
        (case array_at sts (sites ! index) of
           None \<Rightarrow>
             (Some TypeError,
              opt\<lparr>classList := classList_remove (js ''disabled'') (classList opt)\<rparr>)
         | Some site \<Rightarrow>
             (None,
              opt\<lparr>classList := classList_remove (js ''disabled'') (classList opt),
                  href := path site,
                  title_innerHTML := title site,
                  link_innerHTML := path site,
                  target := (if char_at_0 (path site) = Some (js ''/'') then js ''''
                             else js ''_blank'')\<rparr>))
      else
        (None,
         opt\<lparr>classList := classList_add (js ''disabled'') (classList opt),
             href := js ''/'',
             title_innerHTML := js '''',
             link_innerHTML := js '''',
             target := js ''''\<rparr>))"

text \<open>
  The \<^verbatim>\<open>while\<close> loop, from position \<open>index\<close> on; the list holds the slots from that
  position to the last. An exception ends the loop and leaves the later slots as they
  were.
\<close>

fun render_from ::
  "site list \<Rightarrow> int list \<Rightarrow> nat \<Rightarrow> search_option list \<Rightarrow> error option \<times> search_option list" where
  "render_from sts sites index [] = (None, [])"
| "render_from sts sites index (opt # rest) =
     (case render_option sts sites index opt of
        (Some e, opt') \<Rightarrow> (Some e, opt' # rest)
      | (None, opt') \<Rightarrow>
          (case render_from sts sites (Suc index) rest of
             (r, rest') \<Rightarrow> (r, opt' # rest')))"

subsection \<open>The event handler\<close>

datatype outcome = IndexNotReady | Rendered | Thrown error

definition onSearchChange ::
  "(jsstring \<Rightarrow> jsstring) \<Rightarrow> index_state \<Rightarrow> jsstring \<Rightarrow> search_option list
     \<Rightarrow> outcome \<times> search_option list" where
  "onSearchChange nfkd st text search_options =
     (case st of
        Unloaded \<Rightarrow> (IndexNotReady, search_options)
      | Loaded d \<Rightarrow>
          (case accumulate nfkd d (length search_options) text of
             Inl e \<Rightarrow> (Thrown e, search_options)
           | Inr sites \<Rightarrow>
               (case render_from (search_sites d) sites 0 search_options of
                  (None, opts') \<Rightarrow> (Rendered, opts')
                | (Some e, opts') \<Rightarrow> (Thrown e, opts'))))"

subsection \<open>Specification functions\<close>

text \<open>
  The properties below compare the collected indices with the buckets the words select.
  \<open>consulted\<close> is the concatenation, in word order, of the buckets of the words that
  have one; \<open>first_occurrences\<close> keeps of every element its first occurrence only;
  \<open>add_new\<close> appends to a list the elements it lacks, in the order of their first
  occurrence.
\<close>

fun consulted :: "search_data \<Rightarrow> jsstring list \<Rightarrow> int list" where
  "consulted d [] = []"
| "consulted d (word # rest) =
     (case array_get (search_confs d) (get_property (search_words d) word) of
        None \<Rightarrow> consulted d rest
      | Some word_sites_idx \<Rightarrow> word_sites_idx @ consulted d rest)"

fun first_occurrences :: "'a list \<Rightarrow> 'a list" where
  "first_occurrences [] = []"
| "first_occurrences (x # xs) = x # filter (\<lambda>y. y \<noteq> x) (first_occurrences xs)"

fun add_new :: "int list \<Rightarrow> int list \<Rightarrow> int list" where
  "add_new acc [] = acc"
| "add_new acc (x # xs) = (if x \<in> set acc then add_new acc xs else add_new (acc @ [x]) xs)"

subsection \<open>Example data\<close>

text \<open>
  The index of the examples: the words \<^verbatim>\<open>cat\<close> and \<^verbatim>\<open>dog\<close> with the buckets
  \<^verbatim>\<open>[2,5]\<close> and \<^verbatim>\<open>[5,7]\<close>, and eight sites of which those at 2, 5 and 7 are titled
  A, B and C. The other sites and all paths are not fixed by the examples.
\<close>

definition filler :: site where
  "filler = \<lparr>title = js ''-'', path = js ''/''\<rparr>"

definition example_data :: search_data where
  "example_data =
     \<lparr>search_sites =
        [filler, filler, \<lparr>title = js ''A'', path = js ''/a''\<rparr>, filler, filler,
         \<lparr>title = js ''B'', path = js ''https://b.example''\<rparr>, filler,
         \<lparr>title = js ''C'', path = js ''/c''\<rparr>],
      search_confs = [[2, 5], [5, 7]],
      search_words = [js ''cat'' \<mapsto> 0, js ''dog'' \<mapsto> 1]\<rparr>"

text \<open>Three words whose buckets share the site 5; the first bucket lists it before 7.\<close>

definition shared_data :: search_data where
  "shared_data =
     \<lparr>search_sites = search_sites example_data,
      search_confs = [[2, 5], [7, 5], [5]],
      search_words = [js ''a'' \<mapsto> 0, js ''b'' \<mapsto> 1, js ''c'' \<mapsto> 2]\<rparr>"

definition blank_option :: search_option where
  "blank_option =
     \<lparr>classList = [js ''search-option'', js ''disabled''], href = js ''/'',
      title_innerHTML = js '''', link_innerHTML = js '''', target = js ''''\<rparr>"

subsection \<open>Values of the host's normalisation\<close>


section \<open>Properties\<close>

subsection \<open>The collecting loops\<close>

lemmas eval_defs =
  accumulate_def ascii_text_def remove_diacritics_def split_spaces_def js_def
  get_property_def object_prototype_keys_def array_at_def example_data_def filler_def

lemma add_new_first_occurrences:
  "add_new acc xs = acc @ filter (\<lambda>y. y \<notin> set acc) (first_occurrences xs)"
proof (induction xs arbitrary: acc)
  case Nil
  show ?case by simp
next
  case (Cons x xs)
  show ?case
  proof (cases "x \<in> set acc")
    case True
    then have "\<And>y. (y \<noteq> x \<and> y \<notin> set acc) = (y \<notin> set acc)" by auto
    with True Cons show ?thesis by simp
  next
    case False
    have "\<And>y. (y \<notin> set (acc @ [x])) = (y \<noteq> x \<and> y \<notin> set acc)" by auto
    with False Cons show ?thesis by simp
  qed
qed

lemma add_new_append: "add_new acc (xs @ ys) = add_new (add_new acc xs) ys"
  by (induction xs arbitrary: acc) simp_all

lemma add_new_extends: "\<exists>ys. add_new acc xs = acc @ ys"
  by (simp add: add_new_first_occurrences)

lemma scan_bucket_extends: "\<exists>ys. scan_bucket cap sites b = sites @ ys \<and> subseq ys b"
proof (induction b arbitrary: sites)
  case Nil
  show ?case by simp
next
  case (Cons x b)
  show ?case
  proof (cases "x \<in> set sites")
    case True
    with Cons[of sites] show ?thesis by auto
  next
    case False
    show ?thesis
    proof (cases "length (sites @ [x]) \<ge> cap")
      case True
      with False show ?thesis by simp
    next
      case geq: False
      from Cons[of "sites @ [x]"] obtain ys where
        "scan_bucket cap (sites @ [x]) b = (sites @ [x]) @ ys" "subseq ys b" by blast
      with False geq show ?thesis by simp
    qed
  qed
qed

lemma scan_bucket_distinct: "distinct sites \<Longrightarrow> distinct (scan_bucket cap sites b)"
  by (induction b arbitrary: sites) simp_all

lemma scan_bucket_full:
  assumes "cap \<le> length sites"
  shows "take cap (scan_bucket cap sites b) = take cap sites"
proof -
  obtain ys where "scan_bucket cap sites b = sites @ ys"
    using scan_bucket_extends by blast
  with assms show ?thesis by simp
qed

lemma add_new_full:
  assumes "cap \<le> length acc"
  shows "take cap (add_new acc xs) = take cap acc"
proof -
  obtain ys where "add_new acc xs = acc @ ys"
    using add_new_extends by blast
  with assms show ?thesis by simp
qed

lemma scan_bucket_below:
  "length sites < cap \<Longrightarrow> take cap (scan_bucket cap sites b) = take cap (add_new sites b)"
proof (induction b arbitrary: sites)
  case Nil
  show ?case by simp
next
  case (Cons x b)
  show ?case
  proof (cases "x \<in> set sites")
    case True
    with Cons show ?thesis by simp
  next
    case False
    show ?thesis
    proof (cases "length (sites @ [x]) \<ge> cap")
      case True
      then have "take cap (add_new (sites @ [x]) b) = take cap (sites @ [x])"
        by (rule add_new_full)
      with True False show ?thesis by simp
    next
      case geq: False
      then have "length (sites @ [x]) < cap" by simp
      then have "take cap (scan_bucket cap (sites @ [x]) b) = take cap (add_new (sites @ [x]) b)"
        by (rule Cons.IH)
      with False geq show ?thesis by simp
    qed
  qed
qed

lemma scan_bucket_take:
  assumes "take cap s = take cap t"
  shows "take cap (scan_bucket cap s b) = take cap (add_new t b)"
proof (cases "length s < cap")
  case True
  with assms have "s = take cap t" by simp
  moreover from this True have "length t < cap" by auto
  ultimately have "s = t" by simp
  with True show ?thesis by (simp add: scan_bucket_below)
next
  case False
  then have s: "cap \<le> length s" by simp
  have "length (take cap t) = length (take cap s)" using assms by simp
  with s have t: "cap \<le> length t" by simp
  from s t assms show ?thesis by (simp add: scan_bucket_full add_new_full)
qed

lemma scan_words_take:
  "take cap s = take cap t \<Longrightarrow> scan_words d cap s ws = Inr r \<Longrightarrow>
   take cap r = take cap (add_new t (consulted d ws))"
proof (induction ws arbitrary: s t)
  case Nil
  then show ?case by simp
next
  case (Cons w ws)
  show ?case
  proof (cases "get_property (search_words d) w")
    case Undefined
    with Cons.prems have "scan_words d cap s ws = Inr r" by simp
    with Cons.prems(1) have "take cap r = take cap (add_new t (consulted d ws))"
      by (rule Cons.IH)
    with Undefined show ?thesis by simp
  next
    case (Number n)
    show ?thesis
    proof (cases "array_at (search_confs d) n")
      case None
      with Number Cons.prems show ?thesis by simp
    next
      case (Some b)
      with Number Cons.prems have "scan_words d cap (scan_bucket cap s b) ws = Inr r" by simp
      moreover have "take cap (scan_bucket cap s b) = take cap (add_new t b)"
        using Cons.prems(1) by (rule scan_bucket_take)
      ultimately have "take cap r = take cap (add_new (add_new t b) (consulted d ws))"
        using Cons.IH by blast
      with Number Some show ?thesis by (simp add: add_new_append)
    qed
  next
    case Inherited
    with Cons.prems show ?thesis by simp
  qed
qed

lemma scan_words_distinct:
  "distinct s \<Longrightarrow> scan_words d cap s ws = Inr r \<Longrightarrow> distinct r"
proof (induction ws arbitrary: s)
  case Nil
  then show ?case by simp
next
  case (Cons w ws)
  then show ?case
    by (auto split: jsvalue.splits option.splits dest: scan_bucket_distinct)
qed

lemma scan_words_extends:
  "scan_words d cap s ws = Inr r \<Longrightarrow> \<exists>ys. r = s @ ys \<and> subseq ys (consulted d ws)"
proof (induction ws arbitrary: s)
  case Nil
  then show ?case by simp
next
  case (Cons w ws)
  show ?case
  proof (cases "array_get (search_confs d) (get_property (search_words d) w)")
    case None
    with Cons.prems have u: "get_property (search_words d) w = Undefined"
      by (auto split: jsvalue.splits)
    with Cons.prems have "scan_words d cap s ws = Inr r" by simp
    with Cons.IH None show ?thesis by simp
  next
    case (Some b)
    then have "get_property (search_words d) w \<noteq> Undefined" by auto
    with Some Cons.prems have "scan_words d cap (scan_bucket cap s b) ws = Inr r"
      by (auto split: jsvalue.splits)
    then obtain ys where ys: "r = scan_bucket cap s b @ ys" "subseq ys (consulted d ws)"
      using Cons.IH by blast
    obtain zs where zs: "scan_bucket cap s b = s @ zs" "subseq zs b"
      using scan_bucket_extends by blast
    from ys zs have "r = s @ (zs @ ys)" "subseq (zs @ ys) (b @ consulted d ws)"
      by (simp_all add: list_emb_append_mono)
    with Some show ?thesis by auto
  qed
qed

text \<open>
  What the membership test gives whatever the capacity: the collected list has no index
  twice and follows the order of the scan; and up to the capacity it agrees with the
  first occurrences of the consulted buckets.
\<close>

lemma collected_distinct_in_scan_order:
  assumes "accumulate nfkd d cap text = Inr sites"
  shows "distinct sites \<and>
    subseq sites (consulted d (split_spaces (ascii_text nfkd text))) \<and>
    take cap sites =
      take cap (first_occurrences (consulted d (split_spaces (ascii_text nfkd text))))"
proof -
  let ?ws = "split_spaces (ascii_text nfkd text)"
  from assms have sw: "scan_words d cap [] ?ws = Inr sites"
    by (simp add: accumulate_def)
  have "distinct sites"
    using scan_words_distinct[OF _ sw] by simp
  moreover have "subseq sites (consulted d ?ws)"
    using scan_words_extends[OF sw] by simp
  moreover have "take cap sites = take cap (add_new [] (consulted d ?ws))"
    using scan_words_take[OF _ sw, of "[]"] by simp
  ultimately show ?thesis
    by (simp add: add_new_first_occurrences)
qed

text \<open>
  What the capacity test does give: a bucket takes the list to the capacity at most, or
  makes it one longer when it was there already. So the list has at most as many
  entries as the capacity and the number of words together.
\<close>

lemma scan_bucket_length:
  "length (scan_bucket cap sites b) \<le> max cap (Suc (length sites))"
proof (induction b arbitrary: sites)
  case Nil
  show ?case by simp
next
  case (Cons x b)
  show ?case
  proof (cases "x \<in> set sites")
    case True
    with Cons[of sites] show ?thesis by simp
  next
    case False
    show ?thesis
    proof (cases "length (sites @ [x]) \<ge> cap")
      case True
      with False show ?thesis by simp
    next
      case below: False
      then have "max cap (Suc (length (sites @ [x]))) = cap" by simp
      with Cons[of "sites @ [x]"] False below show ?thesis by simp
    qed
  qed
qed

lemma scan_words_length:
  "scan_words d cap sites ws = Inr r \<Longrightarrow> length r \<le> max cap (length sites) + length ws"
proof (induction ws arbitrary: sites)
  case Nil
  then show ?case by simp
next
  case (Cons w ws)
  show ?case
  proof (cases "array_get (search_confs d) (get_property (search_words d) w)")
    case None
    with Cons.prems have "get_property (search_words d) w = Undefined"
      by (auto split: jsvalue.splits)
    with Cons.prems have "scan_words d cap sites ws = Inr r" by simp
    then have "length r \<le> max cap (length sites) + length ws" by (rule Cons.IH)
    then show ?thesis by simp
  next
    case (Some b)
    then have "get_property (search_words d) w \<noteq> Undefined" by auto
    with Some Cons.prems have "scan_words d cap (scan_bucket cap sites b) ws = Inr r"
      by (auto split: jsvalue.splits)
    then have "length r \<le> max cap (length (scan_bucket cap sites b)) + length ws"
      by (rule Cons.IH)
    moreover have "length (scan_bucket cap sites b) \<le> max cap (Suc (length sites))"
      by (rule scan_bucket_length)
    ultimately show ?thesis by simp
  qed
qed

lemma collected_length_bound:
  "accumulate nfkd d cap text = Inr sites \<Longrightarrow>
   length sites \<le> cap + length (split_spaces (ascii_text nfkd text))"
  using scan_words_length[of d cap "[]"] by (simp add: accumulate_def)

text \<open>
  The collecting loops finish without an exception when every word is either unknown to
  the read (\<^verbatim>\<open>undefined\<close>) or mapped to a position of \<^verbatim>\<open>search_confs\<close>.
\<close>

lemma scan_words_finishes:
  assumes "\<forall>w\<in>set ws. get_property (search_words d) w = Undefined \<or>
             (\<exists>n. get_property (search_words d) w = Number n \<and>
                  0 \<le> n \<and> n < int (length (search_confs d)))"
  shows "\<exists>r. scan_words d cap sites ws = Inr r"
  using assms
proof (induction ws arbitrary: sites)
  case Nil
  show ?case by simp
next
  case (Cons w ws)
  then have rest: "\<And>s. \<exists>r. scan_words d cap s ws = Inr r" by simp
  from Cons.prems have "get_property (search_words d) w = Undefined \<or>
      (\<exists>n. get_property (search_words d) w = Number n \<and>
           0 \<le> n \<and> n < int (length (search_confs d)))"
    by simp
  then show ?case
  proof
    assume "get_property (search_words d) w = Undefined"
    with rest[of sites] show ?thesis by simp
  next
    assume "\<exists>n. get_property (search_words d) w = Number n \<and>
                0 \<le> n \<and> n < int (length (search_confs d))"
    then obtain n where "get_property (search_words d) w = Number n"
      "0 \<le> n" "n < int (length (search_confs d))" by blast
    with rest[of "scan_bucket cap sites (search_confs d ! nat n)"] show ?thesis
      by (simp add: array_at_def)
  qed
qed

text \<open>
  Words whose read gives \<^verbatim>\<open>undefined\<close> leave the list as it is, and the empty text,
  whose only word is the empty one, collects nothing.
\<close>

lemma unknown_words_are_skipped:
  "\<forall>w\<in>set ws. get_property (search_words d) w = Undefined \<Longrightarrow>
   scan_words d cap sites ws = Inr sites"
  by (induction ws) simp_all

lemma empty_text_collects_nothing:
  assumes "nfkd [] = []" and "search_words d [] = None"
  shows "accumulate nfkd d cap [] = Inr []"
  using assms
  by (simp add: accumulate_def ascii_text_def remove_diacritics_def split_spaces_def
      get_property_def js_def object_prototype_keys_def)

text \<open>Deleting the marks twice is the same as deleting them once.\<close>

lemma remove_diacritics_idem: "remove_diacritics (remove_diacritics s) = remove_diacritics s"
  by (simp add: remove_diacritics_def)

text \<open>
  The whole normalisation is another matter. For every normalisation function with the
  host's values at the two strings below, normalising once deletes U+034F and normalising
  again reorders the two points it kept apart.
\<close>

lemma joiner_breaks_idempotence:
  assumes "nfkd [0x61, 0x05B1, 0x034F, 0x05B0] = [0x61, 0x05B1, 0x034F, 0x05B0]"
    and "nfkd [0x61, 0x05B1, 0x05B0] = [0x61, 0x05B0, 0x05B1]"
  shows "ascii_text nfkd [0x61, 0x05B1, 0x034F, 0x05B0] = [0x61, 0x05B1, 0x05B0]"
    and "ascii_text nfkd (ascii_text nfkd [0x61, 0x05B1, 0x034F, 0x05B0]) =
           [0x61, 0x05B0, 0x05B1]"
proof -
  show once: "ascii_text nfkd [0x61, 0x05B1, 0x034F, 0x05B0] = [0x61, 0x05B1, 0x05B0]"
    using assms(1) by (simp add: ascii_text_def remove_diacritics_def)
  show "ascii_text nfkd (ascii_text nfkd [0x61, 0x05B1, 0x034F, 0x05B0]) =
          [0x61, 0x05B0, 0x05B1]"
    unfolding once using assms(2) by (simp add: ascii_text_def remove_diacritics_def)
qed

subsection \<open>The rendering loop\<close>

lemma render_from_None:
  "render_from sts sites k opts = (None, opts') \<Longrightarrow>
   length opts' = length opts \<and>
   (\<forall>i<length opts. render_option sts sites (k + i) (opts ! i) = (None, opts' ! i))"
proof (induction opts arbitrary: k opts')
  case Nil
  then show ?case by simp
next
  case (Cons opt rest)
  obtain r opt' where ro: "render_option sts sites k opt = (r, opt')"
    by (cases "render_option sts sites k opt")
  obtain r' rest' where rf: "render_from sts sites (Suc k) rest = (r', rest')"
    by (cases "render_from sts sites (Suc k) rest")
  from Cons.prems ro have r: "r = None"
    by (cases r) simp_all
  with Cons.prems ro rf have r': "r' = None" and opts': "opts' = opt' # rest'"
    by simp_all
  from rf r' have ih: "length rest' = length rest \<and>
      (\<forall>i<length rest. render_option sts sites (Suc k + i) (rest ! i) = (None, rest' ! i))"
    using Cons.IH by blast
  show ?case
  proof (intro conjI allI impI)
    show "length opts' = length (opt # rest)" using ih opts' by simp
  next
    fix i assume "i < length (opt # rest)"
    then show "render_option sts sites (k + i) ((opt # rest) ! i) = (None, opts' ! i)"
      using ih ro r opts' by (cases i) simp_all
  qed
qed

lemma render_from_valid:
  "\<forall>i<length opts. fst (render_option sts sites (k + i) (opts ! i)) = None \<Longrightarrow>
   fst (render_from sts sites k opts) = None"
proof (induction opts arbitrary: k)
  case Nil
  show ?case by simp
next
  case (Cons opt rest)
  from Cons.prems have "fst (render_option sts sites (k + 0) ((opt # rest) ! 0)) = None"
    by blast
  then have h: "fst (render_option sts sites k opt) = None" by simp
  have "\<forall>i<length rest. fst (render_option sts sites (Suc k + i) (rest ! i)) = None"
  proof (intro allI impI)
    fix i assume "i < length rest"
    then have "Suc i < length (opt # rest)" by simp
    with Cons.prems have "fst (render_option sts sites (k + Suc i) ((opt # rest) ! Suc i)) = None"
      by blast
    then show "fst (render_option sts sites (Suc k + i) (rest ! i)) = None" by simp
  qed
  then have "fst (render_from sts sites (Suc k) rest) = None" by (rule Cons.IH)
  with h show ?case
    by (cases "render_option sts sites k opt"; cases "render_from sts sites (Suc k) rest") simp
qed

lemma render_option_valid:
  "index < length sites \<longrightarrow> 0 \<le> sites ! index \<and> sites ! index < int (length sts) \<Longrightarrow>
   fst (render_option sts sites index opt) = None"
  by (simp add: render_option_def array_at_def)

lemma render_option_populated:
  assumes "index < length sites" and "render_option sts sites index opt = (None, opt')"
  shows "0 \<le> sites ! index \<and> sites ! index < int (length sts) \<and>
    opt' = opt\<lparr>classList := classList_remove (js ''disabled'') (classList opt),
              href := path (sts ! nat (sites ! index)),
              title_innerHTML := title (sts ! nat (sites ! index)),
              link_innerHTML := path (sts ! nat (sites ! index)),
              target := (if prefix (js ''/'') (path (sts ! nat (sites ! index))) then js ''''
                         else js ''_blank'')\<rparr>"
proof -
  have p: "\<And>s. (char_at_0 s = Some (js ''/'')) = prefix (js ''/'') s"
    by (simp add: char_at_0_def js_def split: list.splits)
  from assms show ?thesis
    by (auto simp: render_option_def array_at_def p split: if_splits)
qed

lemma render_option_cleared:
  assumes "\<not> index < length sites"
  shows "render_option sts sites index opt =
    (None, opt\<lparr>classList := classList_add (js ''disabled'') (classList opt),
              href := js ''/'', title_innerHTML := js '''', link_innerHTML := js '''',
              target := js ''''\<rparr>)"
  using assms by (simp add: render_option_def)

lemma disabled_removed: "js ''disabled'' \<notin> set (classList_remove (js ''disabled'') cl)"
  by (simp add: classList_remove_def)

lemma disabled_added: "js ''disabled'' \<in> set (classList_add (js ''disabled'') cl)"
  by (simp add: classList_add_def)

lemma blank_not_empty: "js ''_blank'' \<noteq> js ''''"
  by (simp add: js_def)

subsection \<open>The claims\<close>

text \<open>
  C1. The collected indices can be more than the result slots. With the example index,
  two result slots and the text \<^verbatim>\<open>cat dog\<close>, the first word fills both slots (2 and
  5), and the second word still pushes 7: the \<^verbatim>\<open>break\<close> at the capacity test leaves the
  loop over the bucket, not the loop over the words. The text is ASCII, which NFKD leaves
  as it is, so the host's normalisation is the identity here.
\<close>

theorem C1_collected_indices_exceed_capacity:
  "accumulate id example_data 2 (js ''cat dog'') = Inr [2, 5, 7] \<and> 2 < length [2, 5, 7 :: int]"
  by (simp add: eval_defs)

text \<open>
  C2. Collecting does not stop between words. With one result slot, the word \<^verbatim>\<open>cat\<close>
  brings the list to [2], which is the capacity; the loop over the words then goes on to
  \<^verbatim>\<open>dog\<close>, whose bucket is scanned and gives one more index, 5.
\<close>

theorem C2_next_word_processed_at_capacity:
  "scan_words example_data 1 [] [js ''cat''] = Inr [2] \<and>
   length [2 :: int] = 1 \<and>
   scan_words example_data 1 [2] [js ''dog''] = Inr [2, 5]"
  by (simp add: eval_defs)

text \<open>
  C3. With the example index, one result slot and the text \<^verbatim>\<open>cat dog\<close>, the collecting
  loops do not end with [2], the site titled A: they end with the indices [2, 5], the
  sites titled A and B, because the second word is processed after the capacity has been
  reached.
\<close>

theorem C3_collecting_goes_past_capacity:
  "accumulate id example_data 1 (js ''cat dog'') = Inr [2, 5] \<and>
   map (\<lambda>i. title (search_sites example_data ! nat i)) [2, 5] = [js ''A'', js ''B'']"
  by (simp add: eval_defs)

text \<open>
  C4. For every index with the words \<^verbatim>\<open>cat\<close> and \<^verbatim>\<open>dog\<close> in buckets 0 and 1, the
  buckets [2, 5] and [5, 7] and sites 2, 5 and 7 titled A, B and C, the text
  \<^verbatim>\<open>cat dog\<close> with three result slots collects exactly [2, 5, 7] (5 is skipped when it
  comes again in the second bucket, 7 is appended from it), and the three slots show the
  titles A, B and C. NFKD leaves the ASCII text as it is, which is the first hypothesis.
\<close>

theorem C4_cat_dog_capacity_three:
  assumes "nfkd (js ''cat dog'') = js ''cat dog''"
    and "search_words d = [js ''cat'' \<mapsto> 0, js ''dog'' \<mapsto> 1]"
    and "search_confs d = [[2, 5], [5, 7]]"
    and "7 < length (search_sites d)"
    and "title (search_sites d ! 2) = js ''A''"
    and "title (search_sites d ! 5) = js ''B''"
    and "title (search_sites d ! 7) = js ''C''"
    and "length search_options = 3"
  shows "accumulate nfkd d 3 (js ''cat dog'') = Inr [2, 5, 7] \<and>
    (\<exists>opts'. onSearchChange nfkd (Loaded d) (js ''cat dog'') search_options = (Rendered, opts') \<and>
       map title_innerHTML opts' = [js ''A'', js ''B'', js ''C''] \<and>
       list_all (\<lambda>opt. js ''disabled'' \<notin> set (classList opt)) opts')"
proof -
  have a: "accumulate nfkd d 3 (js ''cat dog'') = Inr [2, 5, 7]"
    using assms(1,2,3)
    by (simp add: accumulate_def ascii_text_def remove_diacritics_def split_spaces_def
        js_def get_property_def object_prototype_keys_def array_at_def)
  from assms(8) obtain o1 o2 o3 where opts: "search_options = [o1, o2, o3]"
    by (auto simp: length_Suc_conv numeral_3_eq_3)
  have a': "accumulate nfkd d (length search_options) (js ''cat dog'') = Inr [2, 5, 7]"
    using a assms(8) by simp
  have "onSearchChange nfkd (Loaded d) (js ''cat dog'') search_options =
      (case render_from (search_sites d) [2, 5, 7] 0 search_options of
         (None, opts') \<Rightarrow> (Rendered, opts')
       | (Some e, opts') \<Rightarrow> (Thrown e, opts'))"
    by (simp only: onSearchChange_def index_state.case a' sum.case)
  then show ?thesis
    using a assms(4,5,6,7) opts
    by (simp add: render_option_def array_at_def disabled_removed)
qed

theorem C4_witness:
  "id (js ''cat dog'') = js ''cat dog'' \<and>
   search_words example_data = [js ''cat'' \<mapsto> 0, js ''dog'' \<mapsto> 1] \<and>
   search_confs example_data = [[2, 5], [5, 7]] \<and>
   7 < length (search_sites example_data) \<and>
   title (search_sites example_data ! 2) = js ''A'' \<and>
   title (search_sites example_data ! 5) = js ''B'' \<and>
   title (search_sites example_data ! 7) = js ''C'' \<and>
   length [blank_option, blank_option, blank_option] = 3 \<and>
   accumulate id example_data 3 (js ''cat dog'') = Inr [2, 5, 7] \<and>
   map title_innerHTML
     (snd (onSearchChange id (Loaded example_data) (js ''cat dog'')
        [blank_option, blank_option, blank_option])) = [js ''A'', js ''B'', js ''C'']"
proof -
  have h: "id (js ''cat dog'') = js ''cat dog''"
    "search_words example_data = [js ''cat'' \<mapsto> 0, js ''dog'' \<mapsto> 1]"
    "search_confs example_data = [[2, 5], [5, 7]]"
    "7 < length (search_sites example_data)"
    "title (search_sites example_data ! 2) = js ''A''"
    "title (search_sites example_data ! 5) = js ''B''"
    "title (search_sites example_data ! 7) = js ''C''"
    "length [blank_option, blank_option, blank_option] = 3"
    by (simp_all add: example_data_def)
  from C4_cat_dog_capacity_three[of id example_data "[blank_option, blank_option, blank_option]"] h
  show ?thesis
    by auto
qed

text \<open>
  C5. The occurrence of a site index that is kept is not always its first one. With one
  result slot and the buckets [2, 5], [7, 5] and [5], the scan of the first bucket is
  left after 2, the loop over the words goes on, and 5 is pushed from the third bucket
  only, after 7, although its first occurrence comes before 7: the collected list
  [2, 7, 5] is not in the order of the first occurrences, [2, 5, 7].
\<close>

theorem C5_later_occurrence_kept:
  "accumulate id shared_data 1 (js ''a b c'') = Inr [2, 7, 5] \<and>
   consulted shared_data (split_spaces (ascii_text id (js ''a b c''))) = [2, 5, 7, 5, 5] \<and>
   first_occurrences [2, 5, 7, 5, 5 :: int] = [2, 5, 7] \<and>
   \<not> subseq [2, 7, 5 :: int] [2, 5, 7]"
  by (simp add: eval_defs shared_data_def)

text \<open>
  C6. While the index is not loaded (\<^verbatim>\<open>search_words\<close> is still \<^verbatim>\<open>undefined\<close>), the
  handler returns at once for every text: it reports that the index is not ready, throws
  nothing, reads no index data and leaves every result slot as it was.
\<close>

theorem C6_unloaded_index_returns_at_once:
  "onSearchChange nfkd Unloaded text search_options = (IndexNotReady, search_options)"
  by (simp add: onSearchChange_def)

text \<open>
  C7. A word that is not in the index but names a member of \<^verbatim>\<open>Object.prototype\<close> is
  not skipped. For the text \<^verbatim>\<open>constructor\<close> the read \<^verbatim>\<open>search_words[word]\<close> gives the
  inherited function, which is not \<^verbatim>\<open>undefined\<close>; \<^verbatim>\<open>search_confs\<close> has no property for
  it, and iterating over \<^verbatim>\<open>undefined\<close> throws. No slot is written.
\<close>

theorem C7_inherited_property_name_throws:
  "search_words example_data (js ''constructor'') = None \<and>
   accumulate id example_data 3 (js ''constructor'') = Inl TypeError \<and>
   onSearchChange id (Loaded example_data) (js ''constructor'')
     [blank_option, blank_option, blank_option] =
     (Thrown TypeError, [blank_option, blank_option, blank_option])"
  by (simp add: onSearchChange_def eval_defs)




text \<open>
  C9. A slot that shows a site opens its link in a new context (target \<^verbatim>\<open>_blank\<close>)
  exactly when the path of the site does not begin with \<^verbatim>\<open>/\<close>, and has the empty
  target exactly when the path begins with \<^verbatim>\<open>/\<close>.
\<close>

theorem C9_external_links_open_in_new_context:
  assumes "onSearchChange nfkd (Loaded d) text search_options = (Rendered, opts')"
    and "accumulate nfkd d (length search_options) text = Inr sites"
    and "i < length search_options" and "i < length sites"
  shows "(target (opts' ! i) = js ''_blank'') =
           (\<not> prefix (js ''/'') (path (search_sites d ! nat (sites ! i)))) \<and>
         (target (opts' ! i) = js '''') =
           prefix (js ''/'') (path (search_sites d ! nat (sites ! i))) \<and>
         href (opts' ! i) = path (search_sites d ! nat (sites ! i)) \<and>
         0 \<le> sites ! i \<and> sites ! i < int (length (search_sites d))"
proof -
  from assms(1,2) have "render_from (search_sites d) sites 0 search_options = (None, opts')"
    by (auto simp: onSearchChange_def split: prod.splits option.splits)
  then have "\<forall>i<length search_options.
      render_option (search_sites d) sites (0 + i) (search_options ! i) = (None, opts' ! i)"
    using render_from_None by blast
  with assms(3) have "render_option (search_sites d) sites i (search_options ! i) = (None, opts' ! i)"
    by simp
  from render_option_populated[OF assms(4) this] show ?thesis
    by (cases "prefix (js ''/'') (path (search_sites d ! nat (sites ! i)))")
       (simp_all add: blank_not_empty blank_not_empty[symmetric])
qed

theorem C9_witness:
  "onSearchChange id (Loaded example_data) (js ''dog'') [blank_option, blank_option] =
     (Rendered,
      [\<lparr>classList = [js ''search-option''], href = js ''https://b.example'',
         title_innerHTML = js ''B'', link_innerHTML = js ''https://b.example'',
         target = js ''_blank''\<rparr>,
       \<lparr>classList = [js ''search-option''], href = js ''/c'',
         title_innerHTML = js ''C'', link_innerHTML = js ''/c'', target = js ''''\<rparr>]) \<and>
   accumulate id example_data (length [blank_option, blank_option]) (js ''dog'') = Inr [5, 7] \<and>
   \<not> prefix (js ''/'') (path (search_sites example_data ! nat ([5, 7] ! 0))) \<and>
   target ([\<lparr>classList = [js ''search-option''], href = js ''https://b.example'',
         title_innerHTML = js ''B'', link_innerHTML = js ''https://b.example'',
         target = js ''_blank''\<rparr>,
       \<lparr>classList = [js ''search-option''], href = js ''/c'',
         title_innerHTML = js ''C'', link_innerHTML = js ''/c'', target = js ''''\<rparr>] ! 0) = js ''_blank''"
proof -
  have a: "accumulate id example_data (length [blank_option, blank_option]) (js ''dog'') = Inr [5, 7]"
    by (simp add: eval_defs)
  have r: "onSearchChange id (Loaded example_data) (js ''dog'') [blank_option, blank_option] =
     (Rendered,
      [\<lparr>classList = [js ''search-option''], href = js ''https://b.example'',
         title_innerHTML = js ''B'', link_innerHTML = js ''https://b.example'',
         target = js ''_blank''\<rparr>,
       \<lparr>classList = [js ''search-option''], href = js ''/c'',
         title_innerHTML = js ''C'', link_innerHTML = js ''/c'', target = js ''''\<rparr>])"
    using a by (simp add: onSearchChange_def render_option_def blank_option_def
        classList_remove_def char_at_0_def eval_defs)
  from C9_external_links_open_in_new_context[OF r a, of 0] r a show ?thesis
    by simp
qed

text \<open>
  C10. When the collecting loops have finished and every collected index that a slot
  shows is a position of the site directory, the rendering loop finishes and writes every
  slot: slot \<open>i\<close> gets the path, the title and the link text of the site of the
  \<open>i\<close>-th collected index when there is one, and is otherwise reset (class
  \<^verbatim>\<open>disabled\<close>, href \<^verbatim>\<open>/\<close>, empty title, link text and target). The number of
  slots shown is the smaller of the number of collected indices and the number of slots,
  also when more indices were collected than there are slots.
\<close>

theorem C10_every_slot_written:
  assumes acc: "accumulate nfkd d (length search_options) text = Inr sites"
    and valid: "\<forall>i<length search_options. i < length sites \<longrightarrow>
                  0 \<le> sites ! i \<and> sites ! i < int (length (search_sites d))"
  shows "\<exists>opts'. onSearchChange nfkd (Loaded d) text search_options = (Rendered, opts') \<and>
     length opts' = length search_options \<and>
     (\<forall>i<length search_options.
        if i < length sites then
          js ''disabled'' \<notin> set (classList (opts' ! i)) \<and>
          href (opts' ! i) = path (search_sites d ! nat (sites ! i)) \<and>
          title_innerHTML (opts' ! i) = title (search_sites d ! nat (sites ! i)) \<and>
          link_innerHTML (opts' ! i) = path (search_sites d ! nat (sites ! i)) \<and>
          target (opts' ! i) =
            (if prefix (js ''/'') (path (search_sites d ! nat (sites ! i))) then js ''''
             else js ''_blank'')
        else
          js ''disabled'' \<in> set (classList (opts' ! i)) \<and>
          href (opts' ! i) = js ''/'' \<and>
          title_innerHTML (opts' ! i) = js '''' \<and>
          link_innerHTML (opts' ! i) = js '''' \<and>
          target (opts' ! i) = js '''') \<and>
     length (filter (\<lambda>opt. js ''disabled'' \<notin> set (classList opt)) opts') =
       min (length sites) (length search_options)"
proof -
  let ?sts = "search_sites d"
  have "\<forall>i<length search_options.
          fst (render_option ?sts sites (0 + i) (search_options ! i)) = None"
    using valid by (simp add: render_option_valid)
  then have "fst (render_from ?sts sites 0 search_options) = None"
    by (rule render_from_valid)
  then obtain opts' where rf: "render_from ?sts sites 0 search_options = (None, opts')"
    by (cases "render_from ?sts sites 0 search_options") simp
  then have len: "length opts' = length search_options"
    and each: "\<forall>i<length search_options.
                 render_option ?sts sites (0 + i) (search_options ! i) = (None, opts' ! i)"
    using render_from_None by blast+
  have res: "onSearchChange nfkd (Loaded d) text search_options = (Rendered, opts')"
    using acc rf by (simp add: onSearchChange_def)
  have pop: "js ''disabled'' \<notin> set (classList (opts' ! i)) \<and>
          href (opts' ! i) = path (?sts ! nat (sites ! i)) \<and>
          title_innerHTML (opts' ! i) = title (?sts ! nat (sites ! i)) \<and>
          link_innerHTML (opts' ! i) = path (?sts ! nat (sites ! i)) \<and>
          target (opts' ! i) =
            (if prefix (js ''/'') (path (?sts ! nat (sites ! i))) then js ''''
             else js ''_blank'')"
    if "i < length search_options" "i < length sites" for i
  proof -
    from that each have "render_option ?sts sites i (search_options ! i) = (None, opts' ! i)"
      by simp
    from render_option_populated[OF that(2) this] show ?thesis
      by (simp add: disabled_removed)
  qed
  have clr: "js ''disabled'' \<in> set (classList (opts' ! i)) \<and>
          href (opts' ! i) = js ''/'' \<and>
          title_innerHTML (opts' ! i) = js '''' \<and>
          link_innerHTML (opts' ! i) = js '''' \<and>
          target (opts' ! i) = js ''''"
    if "i < length search_options" "\<not> i < length sites" for i
  proof -
    from that each have "render_option ?sts sites i (search_options ! i) = (None, opts' ! i)"
      by simp
    with render_option_cleared[OF that(2), of ?sts "search_options ! i"]
    have "opts' ! i = (search_options ! i)\<lparr>classList := classList_add (js ''disabled'') (classList (search_options ! i)),
              href := js ''/'', title_innerHTML := js '''', link_innerHTML := js '''',
              target := js ''''\<rparr>" by simp
    then show ?thesis by (simp add: disabled_added)
  qed
  have shown: "{i. i < length opts' \<and> js ''disabled'' \<notin> set (classList (opts' ! i))} =
        {..<min (length sites) (length search_options)}"
  proof (rule set_eqI)
    fix i
    show "(i \<in> {i. i < length opts' \<and> js ''disabled'' \<notin> set (classList (opts' ! i))}) =
          (i \<in> {..<min (length sites) (length search_options)})"
    proof (cases "i < length search_options")
      case True
      have "(js ''disabled'' \<notin> set (classList (opts' ! i))) = (i < length sites)"
        using pop[OF True] clr[OF True] by blast
      with True len show ?thesis by simp
    next
      case False
      with len show ?thesis by simp
    qed
  qed
  have "length (filter (\<lambda>opt. js ''disabled'' \<notin> set (classList opt)) opts') =
        card {i. i < length opts' \<and> js ''disabled'' \<notin> set (classList (opts' ! i))}"
    by (rule length_filter_conv_card)
  also have "\<dots> = card {..<min (length sites) (length search_options)}"
    by (simp only: shown)
  finally have cnt: "length (filter (\<lambda>opt. js ''disabled'' \<notin> set (classList opt)) opts') =
       min (length sites) (length search_options)"
    by simp
  from res len pop clr cnt show ?thesis by auto
qed

theorem C10_witness:
  "accumulate id example_data (length [blank_option]) (js ''cat dog'') = Inr [2, 5] \<and>
   0 \<le> [2, 5::int] ! 0 \<and> [2, 5::int] ! 0 < int (length (search_sites example_data)) \<and>
   onSearchChange id (Loaded example_data) (js ''cat dog'') [blank_option] =
     (Rendered, [\<lparr>classList = [js ''search-option''], href = js ''/a'',
        title_innerHTML = js ''A'', link_innerHTML = js ''/a'', target = js ''''\<rparr>])"
proof -
  have a: "accumulate id example_data (length [blank_option]) (js ''cat dog'') = Inr [2, 5]"
    by (simp add: eval_defs)
  have v: "\<forall>i<length [blank_option]. i < length [2, 5::int] \<longrightarrow>
             0 \<le> [2, 5::int] ! i \<and> [2, 5::int] ! i < int (length (search_sites example_data))"
    by (simp add: example_data_def)
  from C10_every_slot_written[OF a v] obtain opts' where
    "onSearchChange id (Loaded example_data) (js ''cat dog'') [blank_option] = (Rendered, opts')"
    by blast
  then show ?thesis using a
    by (simp add: onSearchChange_def render_option_def blank_option_def
        classList_remove_def char_at_0_def eval_defs)
qed

end
